theory Spec2Isabelle
  imports Main "HOL-Library.Sublist"
begin

section \<open>The telephone game of \<^verbatim>\<open>telephonedenisaSTREAMLIT.py\<close>\<close>

text \<open>
  The script is one function, \<^verbatim>\<open>main\<close>, that Streamlit re-executes on every
  interaction, and two helpers, \<^verbatim>\<open>generate_image\<close> and \<^verbatim>\<open>analyze_image\<close>, that wrap
  the two remote capabilities. Everything the script touches is made explicit in a
  record \<open>world\<close>: the session dictionary, the stored API key, the files under
  \<^verbatim>\<open>telephone_game/\<close>, the wall clock in whole seconds (the script only ever reads
  \<^verbatim>\<open>int(time.time())\<close>), the messages put on the page, and the remote calls made.
  The remote capabilities are parameters (\<open>env\<close>): what the image service and the
  vision service answer on each cycle, and how many whole seconds each call takes.

  Not modelled: the \<^verbatim>\<open>logger\<close> calls (they go to a separate application log), the
  progress bar, the rendering of results, and I/O failures of the log file writes
  (the directory is taken to be writable).
\<close>

subsection \<open>Decimal rendering of integers in f-strings\<close>

definition digit_char :: "nat \<Rightarrow> char" where
  "digit_char d = ''0123456789'' ! d"

fun str_nat :: "nat \<Rightarrow> string" where
  "str_nat n = (if n < 10 then [digit_char n] else str_nat (n div 10) @ [digit_char (n mod 10)])"

declare str_nat.simps [simp del]

text \<open>Python's \<^verbatim>\<open>str\<close> of an \<^verbatim>\<open>int\<close>: a minus sign for negative numbers.\<close>

definition str_int :: "int \<Rightarrow> string" where
  "str_int i = (if i < 0 then CHR ''-'' # str_nat (nat (- i)) else str_nat (nat i))"

subsection \<open>Data\<close>

text \<open>A decoded image, represented by the bytes \<^verbatim>\<open>image.save\<close> writes for it.\<close>

type_synonym image = string

text \<open>The dictionary \<^verbatim>\<open>cycle_data\<close> (source lines 250-256).\<close>

record cycle_data =
  cycle :: nat
  prompt :: string
  image_d :: image
  image_path :: string
  description :: string

text \<open>The dictionary \<^verbatim>\<open>st.session_state.game_state\<close> (source lines 30-34).\<close>

record game_state =
  running :: bool
  cycles :: "cycle_data list"
  log_path :: "string option"

text \<open>What the script puts on the page, in order.\<close>

datatype ui_event =
    Warning_no_key
  | Error_generating string
  | Error_gen_failed nat
  | Error_analyzing string
  | Error_ana_failed nat
  | Status_generating nat nat
  | Status_analyzing nat nat
  | Status_completed

datatype call = Generate string | Describe string

record world =
  game_state :: game_state
  api_key :: "string option"
  fs :: "string \<rightharpoonup> string"
  now :: int
  ui :: "ui_event list"
  calls :: "call list"

text \<open>
  The two capabilities. \<open>GenError\<close> stands for any exception raised inside the
  \<^verbatim>\<open>try\<close> block of \<^verbatim>\<open>generate_image\<close> (the API call, the download, the decoding or
  the saving), \<open>AnaError\<close> for any exception inside the \<^verbatim>\<open>try\<close> block of
  \<^verbatim>\<open>analyze_image\<close> (a reply without text is one: slicing \<^verbatim>\<open>None\<close> on line 118
  raises). The first argument of \<open>gen\<close> and \<open>ana\<close> is the cycle on which
  the call is made: a remote service need not answer the same input the same way
  twice.
\<close>

datatype gen_outcome = GenError string | GenImage image string

datatype ana_outcome = AnaError string | AnaContent string

record env =
  API_KEY :: string
  gen :: "nat \<Rightarrow> string \<Rightarrow> gen_outcome"
  ana :: "nat \<Rightarrow> string \<Rightarrow> ana_outcome"
  gen_secs :: "nat \<Rightarrow> nat"
  ana_secs :: "nat \<Rightarrow> nat"
  strftime :: "int \<Rightarrow> string"

text \<open>The widget values of one execution of the script.\<close>

record ui_input =
  key_input :: string
  slider_cycles :: nat
  clear_clicked :: bool
  start_clicked :: bool
  initial_prompt :: string

datatype exn = ValueError

text \<open>
  How an execution of the script ends: it runs to its end, it is restarted by
  \<^verbatim>\<open>st.rerun()\<close>, or an exception leaves \<^verbatim>\<open>main\<close>. The world is kept in every case:
  the files and the session dictionary are what they were when the exception was
  raised.
\<close>

datatype outcome = Done world | Rerun world | Uncaught exn world

fun world_of :: "outcome \<Rightarrow> world" where
  "world_of (Done s) = s"
| "world_of (Rerun s) = s"
| "world_of (Uncaught e s) = s"

subsection \<open>Small effects\<close>

definition show_ui :: "ui_event \<Rightarrow> world \<Rightarrow> world" where
  "show_ui e s = s\<lparr>ui := ui s @ [e]\<rparr>"

text \<open>\<^verbatim>\<open>with open(p, "w") as f: f.write(c)\<close>\<close>

definition write_file :: "string \<Rightarrow> string \<Rightarrow> world \<Rightarrow> world" where
  "write_file p c s = s\<lparr>fs := (fs s)(p \<mapsto> c)\<rparr>"

text \<open>\<^verbatim>\<open>with open(p, "a") as f: f.write(c)\<close>; a missing file is created.\<close>

definition append_file :: "string \<Rightarrow> string \<Rightarrow> world \<Rightarrow> world" where
  "append_file p c s = s\<lparr>fs := (fs s)(p \<mapsto> (case fs s p of None \<Rightarrow> [] | Some old \<Rightarrow> old) @ c)\<rparr>"

definition sleep :: "nat \<Rightarrow> world \<Rightarrow> world" where
  "sleep n s = s\<lparr>now := now s + int n\<rparr>"

definition idle :: game_state where
  "idle = \<lparr>running = False, cycles = [], log_path = None\<rparr>"

subsection \<open>File names and log texts\<close>

definition image_name :: "int \<Rightarrow> string" where
  "image_name timestamp = ''telephone_game/image_'' @ str_int timestamp @ ''.png''"

definition game_log_name :: "int \<Rightarrow> string" where
  "game_log_name timestamp = ''telephone_game/game_log_'' @ str_int timestamp @ ''.txt''"

definition nl :: string where
  "nl = [CHR 0x0A]"

definition header_text :: "env \<Rightarrow> int \<Rightarrow> string \<Rightarrow> string" where
  "header_text e t p =
     ''=== AI Telephone Game with Images ==='' @ nl @
     ''Start Time: '' @ strftime e t @ nl @
     ''Initial Prompt: '' @ p @ nl @ nl"

definition cycle_text :: "nat \<Rightarrow> nat \<Rightarrow> string \<Rightarrow> string \<Rightarrow> string \<Rightarrow> string" where
  "cycle_text k n p path d =
     ''--- Cycle '' @ str_nat k @ '' of '' @ str_nat n @ '' ---'' @ nl @
     ''Prompt: '' @ p @ nl @
     ''Image Path: '' @ path @ nl @
     ''Description: '' @ d @ nl @ nl"

definition footer_text :: "env \<Rightarrow> int \<Rightarrow> string" where
  "footer_text e t = nl @ ''Game completed at: '' @ strftime e t @ nl"

subsection \<open>The helpers\<close>

text \<open>\<^verbatim>\<open>get_client\<close> (source lines 36-41); a client is represented by its key.\<close>

definition get_client :: "env \<Rightarrow> world \<Rightarrow> string option" where
  "get_client e s =
     (let k = (case api_key s of None \<Rightarrow> API_KEY e | Some k' \<Rightarrow> k')
      in if k \<noteq> [] then Some k else None)"

text \<open>
  \<^verbatim>\<open>generate_image\<close> (source lines 43-80) has three \<^verbatim>\<open>return\<close> statements: three
  \<^verbatim>\<open>None\<close>s when there is no client (line 48), the image, its path and its URL
  (line 75), and four \<^verbatim>\<open>None\<close>s from the exception handler (line 80).
\<close>

datatype gen_return = Tuple3_None | Tuple3 image string string | Tuple4_None

definition generate_image :: "env \<Rightarrow> nat \<Rightarrow> string \<Rightarrow> world \<Rightarrow> gen_return \<times> world" where
  "generate_image e k p s =
     (case get_client e s of
        None \<Rightarrow> (Tuple3_None, s)
      | Some client \<Rightarrow>
          (let s1 = s\<lparr>now := now s + int (gen_secs e k), calls := calls s @ [Generate p]\<rparr>
           in case gen e k p of
                GenError msg \<Rightarrow> (Tuple4_None, show_ui (Error_generating msg) s1)
              | GenImage img image_url \<Rightarrow>
                  (let timestamp = now s1;
                       path = image_name timestamp
                   in (Tuple3 img path image_url, write_file path img s1))))"

text \<open>\<^verbatim>\<open>analyze_image\<close> (source lines 82-124).\<close>

definition analyze_image :: "env \<Rightarrow> nat \<Rightarrow> string \<Rightarrow> world \<Rightarrow> string option \<times> world" where
  "analyze_image e k image_url s =
     (case get_client e s of
        None \<Rightarrow> (None, s)
      | Some client \<Rightarrow>
          (let s1 = s\<lparr>now := now s + int (ana_secs e k), calls := calls s @ [Describe image_url]\<rparr>
           in case ana e k image_url of
                AnaError msg \<Rightarrow> (None, show_ui (Error_analyzing msg) s1)
              | AnaContent d \<Rightarrow> (Some d, s1)))"

subsection \<open>The cycle loop\<close>

text \<open>
  One pass through the body of the \<^verbatim>\<open>for\<close> loop (source lines 229-270) on cycle
  \<open>k\<close> of \<open>n\<close>, with \<open>cur\<close> the current prompt and \<open>lp\<close> the log path. Unpacking
  the four \<^verbatim>\<open>None\<close>s into three names (line 234) raises \<^verbatim>\<open>ValueError\<close>. An image
  object is truthy, so \<^verbatim>\<open>not image\<close> (line 235) holds for the three \<^verbatim>\<open>None\<close>s only;
  \<^verbatim>\<open>not new_description\<close> (line 244) holds for \<^verbatim>\<open>None\<close> and for the empty string.
\<close>

datatype step = Continue string world | Break world | Raise exn world

definition add_cycle :: "cycle_data \<Rightarrow> world \<Rightarrow> world" where
  "add_cycle r s = s\<lparr>game_state := (game_state s)\<lparr>cycles := cycles (game_state s) @ [r]\<rparr>\<rparr>"

definition cycle_body :: "env \<Rightarrow> nat \<Rightarrow> string \<Rightarrow> nat \<Rightarrow> string \<Rightarrow> world \<Rightarrow> step" where
  "cycle_body e n lp k cur s =
     (case generate_image e k cur (show_ui (Status_generating k n) s) of
        (Tuple4_None, s2) \<Rightarrow> Raise ValueError s2
      | (Tuple3_None, s2) \<Rightarrow> Break (show_ui (Error_gen_failed k) s2)
      | (Tuple3 img path image_url, s2) \<Rightarrow>
          (case analyze_image e k image_url (show_ui (Status_analyzing k n) s2) of
             (None, s4) \<Rightarrow> Break (show_ui (Error_ana_failed k) s4)
           | (Some new_description, s4) \<Rightarrow>
               if new_description = [] then Break (show_ui (Error_ana_failed k) s4)
               else
                 (let cd = \<lparr>cycle = k, prompt = cur, image_d = img, image_path = path,
                            description = new_description\<rparr>;
                      s5 = add_cycle cd s4;
                      s6 = append_file lp (cycle_text k n cur path new_description) s5
                  in Continue new_description (if k < n then sleep 1 s6 else s6))))"

text \<open>\<^verbatim>\<open>for cycle in range(k, n + 1)\<close>\<close>

function run_cycles :: "env \<Rightarrow> nat \<Rightarrow> string \<Rightarrow> nat \<Rightarrow> string \<Rightarrow> world \<Rightarrow> outcome" where
  "run_cycles e n lp k cur s =
     (if n < k then Done s
      else case cycle_body e n lp k cur s of
             Continue cur' s' \<Rightarrow> run_cycles e n lp (Suc k) cur' s'
           | Break s' \<Rightarrow> Done s'
           | Raise x s' \<Rightarrow> Uncaught x s')"
  by pat_completeness auto
termination
  by (relation "measure (\<lambda>(e, n, lp, k, cur, s). Suc n - k)") auto

declare run_cycles.simps [simp del]

subsection \<open>Starting a game, and \<^verbatim>\<open>main\<close>\<close>

text \<open>Source lines 205-221: the session is reset, the log is named and the header is written.\<close>

definition loop_entry :: "env \<Rightarrow> string \<Rightarrow> world \<Rightarrow> world" where
  "loop_entry e p s =
     (let timestamp = now s;
          lp = game_log_name timestamp;
          s1 = s\<lparr>game_state := \<lparr>running = True, cycles = [], log_path = Some lp\<rparr>\<rparr>
      in write_file lp (header_text e (now s1) p) s1)"

text \<open>Source lines 272-279: what follows the loop, whether it ran out or was left by \<^verbatim>\<open>break\<close>.\<close>

definition finish :: "env \<Rightarrow> string \<Rightarrow> world \<Rightarrow> world" where
  "finish e lp s =
     (let s1 = show_ui Status_completed s;
          s2 = append_file lp (footer_text e (now s1)) s1
      in s2\<lparr>game_state := (game_state s2)\<lparr>running := False\<rparr>\<rparr>)"

definition start_game :: "env \<Rightarrow> nat \<Rightarrow> string \<Rightarrow> world \<Rightarrow> outcome" where
  "start_game e n p s =
     (let lp = game_log_name (now s)
      in case run_cycles e n lp 1 p (loop_entry e p s) of
           Done s' \<Rightarrow> Done (finish e lp s')
         | Rerun s' \<Rightarrow> Rerun s'
         | Uncaught x s' \<Rightarrow> Uncaught x s')"

text \<open>The sidebar's key field (source lines 146-148): a non-empty key is stored.\<close>

definition with_key :: "ui_input \<Rightarrow> world \<Rightarrow> world" where
  "with_key inp s = (if key_input inp \<noteq> [] then s\<lparr>api_key := Some (key_input inp)\<rparr> else s)"

text \<open>
  \<^verbatim>\<open>main\<close> (source lines 126-310), without the rendering. A disabled button
  cannot be clicked, so \<^verbatim>\<open>start_button\<close> is true only when the game is not running.
\<close>

definition main :: "env \<Rightarrow> ui_input \<Rightarrow> world \<Rightarrow> outcome" where
  "main e inp s =
     (let s1 = with_key inp s
      in if clear_clicked inp then Rerun (s1\<lparr>game_state := idle\<rparr>)
         else
           (let start_button = (start_clicked inp \<and> \<not> running (game_state s1))
            in if get_client e s1 = None then Done (show_ui Warning_no_key s1)
               else if start_button \<and> initial_prompt inp \<noteq> []
                 then start_game e (slider_cycles inp) (initial_prompt inp) s1
                 else Done s1))"

subsection \<open>Notions used in the statements\<close>

text \<open>
  The start button takes effect: it is the button clicked, no game is running, the
  prompt is not empty and a client can be built.
\<close>

definition game_starts :: "env \<Rightarrow> ui_input \<Rightarrow> world \<Rightarrow> bool" where
  "game_starts e inp s =
     (\<not> clear_clicked inp \<and> start_clicked inp \<and> \<not> running (game_state s) \<and>
      initial_prompt inp \<noteq> [] \<and> get_client e (with_key inp s) \<noteq> None)"

text \<open>
  The session dictionary has no status entry. Its \<^verbatim>\<open>running\<close> flag is set while the
  loop runs; \<^verbatim>\<open>log_path\<close> is \<^verbatim>\<open>None\<close> in the initial and the cleared dictionary and
  set from the start of a game on; and every game that leaves the loop, by exhausting
  the range or by \<^verbatim>\<open>break\<close>, is announced as completed (source lines 272-279). This
  is the whole of what the dictionary tells about the state of a game.
\<close>

datatype status = Idle | Running | Completed | Aborted

definition status_of :: "game_state \<Rightarrow> status" where
  "status_of g = (if running g then Running else if log_path g = None then Idle else Completed)"

text \<open>
  Cycle \<open>k\<close> succeeds on prompt \<open>cur\<close> when the image service returns an image and
  the vision service a non-empty description of it (an empty description is falsy,
  source line 244); the result is that description.
\<close>

definition cycle_result :: "env \<Rightarrow> nat \<Rightarrow> string \<Rightarrow> string option" where
  "cycle_result e k cur =
     (case gen e k cur of
        GenError msg \<Rightarrow> None
      | GenImage img image_url \<Rightarrow>
          (case ana e k image_url of
             AnaError msg \<Rightarrow> None
           | AnaContent d \<Rightarrow> if d = [] then None else Some d))"

text \<open>The \<open>m\<close> cycles from cycle \<open>k\<close> on all succeed, each on the description of the one before.\<close>

fun succeed_from :: "env \<Rightarrow> nat \<Rightarrow> nat \<Rightarrow> string \<Rightarrow> bool" where
  "succeed_from e 0 k cur = True"
| "succeed_from e (Suc m) k cur =
     (case cycle_result e k cur of None \<Rightarrow> False | Some d \<Rightarrow> succeed_from e m (Suc k) d)"

definition all_cycles_succeed :: "env \<Rightarrow> string \<Rightarrow> nat \<Rightarrow> bool" where
  "all_cycles_succeed e p n = succeed_from e n 1 p"

text \<open>The \<open>m\<close> cycles from cycle \<open>k\<close> on succeed and the next one fails.\<close>

fun fails_from :: "env \<Rightarrow> nat \<Rightarrow> nat \<Rightarrow> string \<Rightarrow> bool" where
  "fails_from e 0 k cur = (cycle_result e k cur = None)"
| "fails_from e (Suc m) k cur =
     (case cycle_result e k cur of None \<Rightarrow> False | Some d \<Rightarrow> fails_from e m (Suc k) d)"

definition fails_on_cycle :: "env \<Rightarrow> string \<Rightarrow> nat \<Rightarrow> bool" where
  "fails_on_cycle e p k = (0 < k \<and> fails_from e (k - 1) 1 p)"

text \<open>Each record's prompt is the description of the record before it, the first one's is \<open>p\<close>.\<close>

fun chained :: "string \<Rightarrow> cycle_data list \<Rightarrow> bool" where
  "chained p [] = True"
| "chained p (c # cs) = (prompt c = p \<and> chained (description c) cs)"

definition last_out :: "string \<Rightarrow> cycle_data list \<Rightarrow> string" where
  "last_out p cs = (if cs = [] then p else description (last cs))"

text \<open>The block of the log that belongs to a record.\<close>

definition log_block :: "nat \<Rightarrow> cycle_data \<Rightarrow> string" where
  "log_block n c = cycle_text (cycle c) n (prompt c) (image_path c) (description c)"

text \<open>
  The heads of the loop: in the game that \<open>start_game e n p s\<close> starts, the loop
  reaches cycle \<open>k\<close> with current prompt \<open>cur\<close> in world \<open>s'\<close>. The head \<open>Suc n\<close> is
  where the range is exhausted.
\<close>

inductive at_cycle_start :: "env \<Rightarrow> nat \<Rightarrow> string \<Rightarrow> world \<Rightarrow> nat \<Rightarrow> string \<Rightarrow> world \<Rightarrow> bool"
  for e n p s where
    first_cycle: "at_cycle_start e n p s 1 p (loop_entry e p s)"
  | next_cycle:
      "at_cycle_start e n p s k cur s' \<Longrightarrow> k \<le> n \<Longrightarrow>
       cycle_body e n (game_log_name (now s)) k cur s' = Continue cur' s'' \<Longrightarrow>
       at_cycle_start e n p s (Suc k) cur' s''"

fun uncaught :: "outcome \<Rightarrow> exn option" where
  "uncaught (Done s) = None"
| "uncaught (Rerun s) = None"
| "uncaught (Uncaught x s) = Some x"

subsection \<open>Test doubles\<close>

text \<open>
  An image service and a vision service that always succeed and answer within the
  second, the vision service with one fixed description; and variants of them that
  raise on one cycle.
\<close>

definition stub :: env where
  "stub = \<lparr>API_KEY = ''sk-test'',
           gen = (\<lambda>k p. GenImage (''image of '' @ p) (''https://images.test/'' @ str_nat k)),
           ana = (\<lambda>k u. AnaContent ''a feline in pointed headwear''),
           gen_secs = (\<lambda>k. 0),
           ana_secs = (\<lambda>k. 0),
           strftime = str_int\<rparr>"

definition ana_fails_on :: "nat \<Rightarrow> env" where
  "ana_fails_on j = stub\<lparr>ana := (\<lambda>k u. if k = j then AnaError ''timeout'' else ana stub k u)\<rparr>"

definition gen_fails_on :: "nat \<Rightarrow> env" where
  "gen_fails_on j = stub\<lparr>gen := (\<lambda>k p. if k = j then GenError ''quota'' else gen stub k p)\<rparr>"

definition w0 :: world where
  "w0 = \<lparr>game_state = idle, api_key = None, fs = Map.empty, now = 1700000000,
         ui = [], calls = []\<rparr>"

definition press_start :: "nat \<Rightarrow> string \<Rightarrow> ui_input" where
  "press_start n p =
     \<lparr>key_input = [], slider_cycles = n, clear_clicked = False, start_clicked = True,
      initial_prompt = p\<rparr>"

text \<open>Two games of one cycle, the second started in the second in which the first ended.\<close>

definition game_one :: world where
  "game_one = world_of (main stub (press_start 1 ''a cat'') w0)"

definition game_two :: world where
  "game_two = world_of (main stub (press_start 1 ''a dog'') game_one)"

section \<open>Lemmas\<close>

subsection \<open>File names\<close>

lemma digit_char_inj: "a < 10 \<Longrightarrow> b < 10 \<Longrightarrow> digit_char a = digit_char b \<Longrightarrow> a = b"
proof -
  assume a: "a < 10" and b: "b < 10" and eq: "digit_char a = digit_char b"
  have d: "distinct ''0123456789''" by simp
  have "length ''0123456789'' = 10" by simp
  with a b eq d show "a = b"
    unfolding digit_char_def by (metis nth_eq_iff_index_eq)
qed

lemma digit_char_not_minus: "d < 10 \<Longrightarrow> digit_char d \<noteq> CHR ''-''"
proof -
  assume "d < 10"
  then have "digit_char d \<in> set ''0123456789''"
    unfolding digit_char_def by (intro nth_mem) simp
  then show ?thesis by auto
qed

lemma str_nat_not_Nil: "str_nat n \<noteq> []"
  by (subst str_nat.simps) simp

lemma str_nat_inj: "str_nat m = str_nat n \<Longrightarrow> m = n"
proof (induction m arbitrary: n rule: str_nat.induct)
  case (1 m)
  show ?case
  proof (cases "m < 10")
    case True
    then have m: "str_nat m = [digit_char m]" by (subst str_nat.simps) simp
    show ?thesis
    proof (cases "n < 10")
      case True
      then have "str_nat n = [digit_char n]" by (subst str_nat.simps) simp
      with m "1.prems" have "digit_char m = digit_char n" by simp
      with \<open>m < 10\<close> True show ?thesis by (rule digit_char_inj)
    next
      case False
      then have "str_nat n = str_nat (n div 10) @ [digit_char (n mod 10)]"
        by (subst str_nat.simps) simp
      with m "1.prems" have "str_nat (n div 10) = []" by simp
      then show ?thesis by (simp add: str_nat_not_Nil)
    qed
  next
    case False
    then have m: "str_nat m = str_nat (m div 10) @ [digit_char (m mod 10)]"
      by (subst str_nat.simps) simp
    show ?thesis
    proof (cases "n < 10")
      case True
      then have "str_nat n = [digit_char n]" by (subst str_nat.simps) simp
      with m "1.prems" have "str_nat (m div 10) = []" by simp
      then show ?thesis by (simp add: str_nat_not_Nil)
    next
      case n: False
      then have "str_nat n = str_nat (n div 10) @ [digit_char (n mod 10)]"
        by (subst str_nat.simps) simp
      with m "1.prems" have eq: "str_nat (m div 10) = str_nat (n div 10)"
        and d: "digit_char (m mod 10) = digit_char (n mod 10)" by simp_all
      from "1.IH" [OF False eq] have "m div 10 = n div 10" .
      moreover from d have "m mod 10 = n mod 10" by (intro digit_char_inj) simp_all
      ultimately show ?thesis by (metis div_mult_mod_eq)
    qed
  qed
qed

lemma str_nat_hd_not_minus: "hd (str_nat n) \<noteq> CHR ''-''"
proof (induction n rule: str_nat.induct)
  case (1 n)
  show ?case
  proof (cases "n < 10")
    case True
    then show ?thesis by (subst str_nat.simps) (simp add: digit_char_not_minus)
  next
    case False
    with 1 show ?thesis by (subst str_nat.simps) (simp add: str_nat_not_Nil)
  qed
qed

lemma str_int_inj: "str_int a = str_int b \<Longrightarrow> a = b"
proof -
  assume eq: "str_int a = str_int b"
  have neg: "str_nat m \<noteq> CHR ''-'' # xs" for m xs
    using str_nat_hd_not_minus [of m] by (metis list.sel(1))
  show "a = b"
  proof (cases "a < 0"; cases "b < 0")
    assume "a < 0" "b < 0"
    with eq have "str_nat (nat (- a)) = str_nat (nat (- b))" by (simp add: str_int_def)
    then have "nat (- a) = nat (- b)" by (rule str_nat_inj)
    with \<open>a < 0\<close> \<open>b < 0\<close> show ?thesis by simp
  next
    assume "a < 0" "\<not> b < 0"
    with eq neg show ?thesis by (simp add: str_int_def) metis
  next
    assume "\<not> a < 0" "b < 0"
    with eq neg show ?thesis by (simp add: str_int_def)
  next
    assume "\<not> a < 0" "\<not> b < 0"
    with eq have "str_nat (nat a) = str_nat (nat b)" by (simp add: str_int_def)
    then have "nat a = nat b" by (rule str_nat_inj)
    with \<open>\<not> a < 0\<close> \<open>\<not> b < 0\<close> show ?thesis by simp
  qed
qed

lemma image_name_inj [simp]: "image_name a = image_name b \<longleftrightarrow> a = b"
  by (auto simp: image_name_def dest: str_int_inj)

lemma game_log_name_inj [simp]: "game_log_name a = game_log_name b \<longleftrightarrow> a = b"
  by (auto simp: game_log_name_def dest: str_int_inj)

lemma image_name_not_log [simp]: "image_name a \<noteq> game_log_name b" "game_log_name b \<noteq> image_name a"
  by (simp_all add: image_name_def game_log_name_def)

subsection \<open>One pass through the loop body\<close>

lemma get_client_upd [simp]:
  "get_client e (s\<lparr>game_state := g\<rparr>) = get_client e s"
  "get_client e (s\<lparr>fs := f\<rparr>) = get_client e s"
  "get_client e (s\<lparr>now := t\<rparr>) = get_client e s"
  "get_client e (s\<lparr>ui := u\<rparr>) = get_client e s"
  "get_client e (s\<lparr>calls := c\<rparr>) = get_client e s"
  by (simp_all add: get_client_def)

lemma get_client_api_key: "api_key s' = api_key s \<Longrightarrow> get_client e s' = get_client e s"
  by (simp add: get_client_def)

lemmas effects = show_ui_def write_file_def append_file_def sleep_def add_cycle_def

lemma cycle_body_ContinueD:
  assumes "cycle_body e n lp k cur s = Continue d s'"
  shows "\<exists>img url. gen e k cur = GenImage img url \<and> ana e k url = AnaContent d \<and> d \<noteq> [] \<and>
           get_client e s \<noteq> None \<and>
           game_state s' = (game_state s)\<lparr>cycles := cycles (game_state s) @
              [\<lparr>cycle = k, prompt = cur, image_d = img,
                image_path = image_name (now s + int (gen_secs e k)), description = d\<rparr>]\<rparr> \<and>
           api_key s' = api_key s \<and>
           fs s' = ((fs s)(image_name (now s + int (gen_secs e k)) \<mapsto> img))
                     (lp \<mapsto> (case ((fs s)(image_name (now s + int (gen_secs e k)) \<mapsto> img)) lp of
                                None \<Rightarrow> [] | Some old \<Rightarrow> old) @
                            cycle_text k n cur (image_name (now s + int (gen_secs e k))) d) \<and>
           now s' = now s + int (gen_secs e k) + int (ana_secs e k) + (if k < n then 1 else 0) \<and>
           calls s' = calls s @ [Generate cur, Describe url] \<and>
           ui s' = ui s @ [Status_generating k n, Status_analyzing k n]"
  using assms
  by (auto simp: cycle_body_def generate_image_def analyze_image_def effects Let_def
      split: option.splits gen_outcome.splits ana_outcome.splits if_splits)

lemma cycle_body_Continue_result:
  "cycle_body e n lp k cur s = Continue d s' \<Longrightarrow> cycle_result e k cur = Some d"
  by (drule cycle_body_ContinueD) (auto simp: cycle_result_def)

lemma cycle_body_ContinueI:
  assumes "get_client e s \<noteq> None" and "cycle_result e k cur = Some d"
  shows "\<exists>s'. cycle_body e n lp k cur s = Continue d s'"
  using assms
  by (auto simp: cycle_body_def cycle_result_def generate_image_def analyze_image_def effects Let_def
      split: option.splits gen_outcome.splits ana_outcome.splits if_splits)

lemma cycle_body_BreakD:
  assumes "cycle_body e n lp k cur s = Break s'"
  shows "game_state s' = game_state s \<and> api_key s' = api_key s \<and> now s \<le> now s' \<and>
         length (calls s') \<le> length (calls s) + 2 \<and>
         (\<forall>q. q \<noteq> image_name (now s + int (gen_secs e k)) \<longrightarrow> fs s' q = fs s q) \<and>
         (get_client e s \<noteq> None \<longrightarrow>
            (\<exists>img url. gen e k cur = GenImage img url \<and>
               fs s' (image_name (now s + int (gen_secs e k))) = Some img))"
  using assms
  by (auto simp: cycle_body_def generate_image_def analyze_image_def effects Let_def
      split: option.splits gen_outcome.splits ana_outcome.splits if_splits)

lemma cycle_body_RaiseD:
  assumes "cycle_body e n lp k cur s = Raise x s'"
  shows "x = ValueError \<and> (\<exists>msg. gen e k cur = GenError msg) \<and> game_state s' = game_state s \<and>
         api_key s' = api_key s \<and> fs s' = fs s \<and> now s \<le> now s' \<and>
         calls s' = calls s @ [Generate cur]"
  using assms
  by (auto simp: cycle_body_def generate_image_def analyze_image_def effects Let_def
      split: option.splits gen_outcome.splits ana_outcome.splits if_splits)

lemma cycle_body_gen_error:
  assumes "get_client e s \<noteq> None" and "gen e k cur = GenError msg"
  shows "\<exists>s'. cycle_body e n lp k cur s = Raise ValueError s'"
  using assms
  by (auto simp: cycle_body_def generate_image_def effects Let_def split: option.splits)

lemma cycle_body_ana_fail:
  assumes "get_client e s \<noteq> None" and "gen e k cur = GenImage img url"
    and "ana e k url = AnaError msg \<or> ana e k url = AnaContent []"
  shows "\<exists>s'. cycle_body e n lp k cur s = Break s'"
  using assms
  by (auto simp: cycle_body_def generate_image_def analyze_image_def effects Let_def split: option.splits)

subsection \<open>The loop and its heads\<close>

lemma run_cycles_exit: "n < k \<Longrightarrow> run_cycles e n lp k cur s = Done s"
  by (subst run_cycles.simps) simp

lemma run_cycles_Continue:
  "k \<le> n \<Longrightarrow> cycle_body e n lp k cur s = Continue cur' s' \<Longrightarrow>
   run_cycles e n lp k cur s = run_cycles e n lp (Suc k) cur' s'"
  by (subst run_cycles.simps) simp

lemma run_cycles_Break:
  "k \<le> n \<Longrightarrow> cycle_body e n lp k cur s = Break s' \<Longrightarrow> run_cycles e n lp k cur s = Done s'"
  by (subst run_cycles.simps) simp

lemma run_cycles_Raise:
  "k \<le> n \<Longrightarrow> cycle_body e n lp k cur s = Raise x s' \<Longrightarrow>
   run_cycles e n lp k cur s = Uncaught x s'"
  by (subst run_cycles.simps) simp

lemma head_bounds: "at_cycle_start e n p s k cur s' \<Longrightarrow> 1 \<le> k \<and> k \<le> Suc n"
  by (induction rule: at_cycle_start.induct) auto

lemma head_run:
  "at_cycle_start e n p s k cur s' \<Longrightarrow>
   run_cycles e n (game_log_name (now s)) 1 p (loop_entry e p s) =
   run_cycles e n (game_log_name (now s)) k cur s'"
  by (induction rule: at_cycle_start.induct) (simp_all add: run_cycles_Continue)

lemma head_unique:
  "at_cycle_start e n p s k cur s' \<Longrightarrow> at_cycle_start e n p s k cur2 s2 \<Longrightarrow>
   cur2 = cur \<and> s2 = s'"
proof (induction arbitrary: cur2 s2 rule: at_cycle_start.induct)
  case first_cycle
  from first_cycle show ?case
    by (cases rule: at_cycle_start.cases) (auto dest: head_bounds)
next
  case (next_cycle k cur s' cur' s'')
  from next_cycle.prems show ?case
  proof (cases rule: at_cycle_start.cases)
    case first_cycle
    with head_bounds [OF next_cycle.hyps(1)] show ?thesis by simp
  next
    case (next_cycle c t)
    with next_cycle.IH [of c t] have "c = cur" "t = s'" by simp_all
    with next_cycle next_cycle.hyps(3) show ?thesis by simp
  qed
qed

lemma run_from_head:
  assumes "at_cycle_start e n p s k cur s'"
  shows "(\<exists>c t. at_cycle_start e n p s (Suc n) c t \<and>
            run_cycles e n (game_log_name (now s)) k cur s' = Done t) \<or>
         (\<exists>j c t t'. at_cycle_start e n p s j c t \<and> j \<le> n \<and>
            cycle_body e n (game_log_name (now s)) j c t = Break t' \<and>
            run_cycles e n (game_log_name (now s)) k cur s' = Done t') \<or>
         (\<exists>j c t x t'. at_cycle_start e n p s j c t \<and> j \<le> n \<and>
            cycle_body e n (game_log_name (now s)) j c t = Raise x t' \<and>
            run_cycles e n (game_log_name (now s)) k cur s' = Uncaught x t')"
  using assms
proof (induction "Suc n - k" arbitrary: k cur s')
  case 0
  with head_bounds [OF "0.prems"] have "k = Suc n" by simp
  with "0.prems" show ?case by (auto simp: run_cycles_exit)
next
  case (Suc m)
  then have kn: "k \<le> n" by simp
  show ?case
  proof (cases "cycle_body e n (game_log_name (now s)) k cur s'")
    case (Continue cur' s'')
    with Suc.prems kn have h: "at_cycle_start e n p s (Suc k) cur' s''"
      by (intro at_cycle_start.next_cycle)
    from Suc.hyps(2) have "m = Suc n - Suc k" by simp
    from Suc.hyps(1) [OF this h] show ?thesis
      by (simp add: run_cycles_Continue [OF kn Continue])
  next
    case (Break t')
    with Suc.prems kn show ?thesis
      by (auto simp: run_cycles_Break [OF kn Break])
  next
    case (Raise x t')
    with Suc.prems kn show ?thesis
      by (auto simp: run_cycles_Raise [OF kn Raise])
  qed
qed

lemma loop_entry_simps [simp]:
  "game_state (loop_entry e p s) =
     \<lparr>running = True, cycles = [], log_path = Some (game_log_name (now s))\<rparr>"
  "api_key (loop_entry e p s) = api_key s"
  "fs (loop_entry e p s) = (fs s)(game_log_name (now s) \<mapsto> header_text e (now s) p)"
  "now (loop_entry e p s) = now s"
  "ui (loop_entry e p s) = ui s"
  "calls (loop_entry e p s) = calls s"
  by (simp_all add: loop_entry_def write_file_def Let_def)

lemma finish_simps [simp]:
  "game_state (finish e lp s) = (game_state s)\<lparr>running := False\<rparr>"
  "api_key (finish e lp s) = api_key s"
  "fs (finish e lp s) =
     (fs s)(lp \<mapsto> (case fs s lp of None \<Rightarrow> [] | Some old \<Rightarrow> old) @ footer_text e (now s))"
  "now (finish e lp s) = now s"
  "ui (finish e lp s) = ui s @ [Status_completed]"
  "calls (finish e lp s) = calls s"
  by (simp_all add: finish_def effects Let_def)

lemma head_api_key: "at_cycle_start e n p s k cur s' \<Longrightarrow> api_key s' = api_key s"
  by (induction rule: at_cycle_start.induct) (auto dest: cycle_body_ContinueD)

lemma head_client: "at_cycle_start e n p s k cur s' \<Longrightarrow> get_client e s' = get_client e s"
  by (rule get_client_api_key) (rule head_api_key)

lemma head_now: "at_cycle_start e n p s k cur s' \<Longrightarrow> now s \<le> now s'"
  by (induction rule: at_cycle_start.induct) (auto dest!: cycle_body_ContinueD)

lemma head_game:
  "at_cycle_start e n p s k cur s' \<Longrightarrow>
   running (game_state s') \<and> log_path (game_state s') = Some (game_log_name (now s)) \<and>
   map cycle (cycles (game_state s')) = [1..<k]"
proof (induction rule: at_cycle_start.induct)
  case first_cycle
  show ?case by simp
next
  case (next_cycle k cur s' cur' s'')
  from head_bounds [OF next_cycle.hyps(1)] have "[1..<Suc k] = [1..<k] @ [k]" by simp
  with cycle_body_ContinueD [OF next_cycle.hyps(3)] next_cycle.IH show ?case by auto
qed

lemma chained_snoc:
  "chained p (cs @ [c]) \<longleftrightarrow> chained p cs \<and> prompt c = last_out p cs"
  by (induction cs arbitrary: p) (auto simp: last_out_def)

lemma head_chain:
  "at_cycle_start e n p s k cur s' \<Longrightarrow>
   chained p (cycles (game_state s')) \<and> cur = last_out p (cycles (game_state s'))"
proof (induction rule: at_cycle_start.induct)
  case first_cycle
  show ?case by (simp add: last_out_def)
next
  case (next_cycle k cur s' cur' s'')
  from cycle_body_ContinueD [OF next_cycle.hyps(3)] next_cycle.IH show ?case
    by (auto simp: chained_snoc) (simp add: last_out_def)
qed

lemma chained_nth:
  "chained p cs \<Longrightarrow> i < length cs \<Longrightarrow>
   prompt (cs ! i) = (if i = 0 then p else description (cs ! (i - 1)))"
proof (induction cs arbitrary: p i)
  case Nil
  then show ?case by simp
next
  case (Cons c cs)
  show ?case
  proof (cases i)
    case 0
    with Cons.prems show ?thesis by simp
  next
    case (Suc j)
    with Cons.prems Cons.IH [of "description c" j] show ?thesis
      by (cases j) auto
  qed
qed

lemma head_log:
  "at_cycle_start e n p s k cur s' \<Longrightarrow>
   fs s' (game_log_name (now s)) =
     Some (header_text e (now s) p @ concat (map (log_block n) (cycles (game_state s'))))"
  by (induction rule: at_cycle_start.induct)
     (auto dest!: cycle_body_ContinueD simp: log_block_def)

subsection \<open>Whole games\<close>

lemma with_key_simps [simp]:
  "game_state (with_key inp s) = game_state s"
  "fs (with_key inp s) = fs s"
  "now (with_key inp s) = now s"
  "ui (with_key inp s) = ui s"
  "calls (with_key inp s) = calls s"
  by (simp_all add: with_key_def)

lemma main_starts:
  "game_starts e inp s \<Longrightarrow>
   main e inp s = start_game e (slider_cycles inp) (initial_prompt inp) (with_key inp s)"
  by (auto simp: main_def game_starts_def Let_def)

lemma no_client_no_key:
  assumes "get_client e (with_key inp s) = None"
  shows "with_key inp s = s"
  using assms by (auto simp: with_key_def get_client_def split: if_splits)

lemma start_game_cases:
  "(\<exists>c t. at_cycle_start e n p s (Suc n) c t \<and>
      start_game e n p s = Done (finish e (game_log_name (now s)) t)) \<or>
   (\<exists>j c t t'. at_cycle_start e n p s j c t \<and> j \<le> n \<and>
      cycle_body e n (game_log_name (now s)) j c t = Break t' \<and>
      start_game e n p s = Done (finish e (game_log_name (now s)) t')) \<or>
   (\<exists>j c t x t'. at_cycle_start e n p s j c t \<and> j \<le> n \<and>
      cycle_body e n (game_log_name (now s)) j c t = Raise x t' \<and>
      start_game e n p s = Uncaught x t')"
  using run_from_head [OF at_cycle_start.first_cycle, of e n p s]
proof (elim disjE exE conjE)
  fix c t
  assume "at_cycle_start e n p s (Suc n) c t"
    and "run_cycles e n (game_log_name (now s)) 1 p (loop_entry e p s) = Done t"
  then show ?thesis by (intro disjI1) (auto simp: start_game_def Let_def)
next
  fix j c t t'
  assume "at_cycle_start e n p s j c t" "j \<le> n"
    and "cycle_body e n (game_log_name (now s)) j c t = Break t'"
    and "run_cycles e n (game_log_name (now s)) 1 p (loop_entry e p s) = Done t'"
  then show ?thesis by (intro disjI2 disjI1) (auto simp: start_game_def Let_def)
next
  fix j c t x t'
  assume "at_cycle_start e n p s j c t" "j \<le> n"
    and "cycle_body e n (game_log_name (now s)) j c t = Raise x t'"
    and "run_cycles e n (game_log_name (now s)) 1 p (loop_entry e p s) = Uncaught x t'"
  then show ?thesis by (intro disjI2) (auto simp: start_game_def Let_def)
qed

lemma succeed_reaches:
  "succeed_from e m k cur \<Longrightarrow> at_cycle_start e n p s k cur s' \<Longrightarrow>
   get_client e s \<noteq> None \<Longrightarrow> k + m = Suc n \<Longrightarrow> \<exists>c t. at_cycle_start e n p s (Suc n) c t"
proof (induction m arbitrary: k cur s')
  case 0
  then show ?case by auto
next
  case (Suc m)
  from Suc.prems(1) obtain d where d: "cycle_result e k cur = Some d"
    and rest: "succeed_from e m (Suc k) d"
    by (auto split: option.splits)
  from Suc.prems(2,3) have "get_client e s' \<noteq> None" by (simp add: head_client)
  from cycle_body_ContinueI [OF this d]
  obtain s'' where "cycle_body e n (game_log_name (now s)) k cur s' = Continue d s''" by blast
  with Suc.prems(2,4) have "at_cycle_start e n p s (Suc k) d s''"
    by (intro at_cycle_start.next_cycle) simp_all
  from Suc.IH [OF rest this Suc.prems(3)] Suc.prems(4) show ?case by simp
qed

lemma fails_reaches:
  "fails_from e m k cur \<Longrightarrow> at_cycle_start e n p s k cur s' \<Longrightarrow>
   get_client e s \<noteq> None \<Longrightarrow> k + m \<le> n \<Longrightarrow>
   \<exists>c t. at_cycle_start e n p s (k + m) c t \<and> cycle_result e (k + m) c = None"
proof (induction m arbitrary: k cur s')
  case 0
  then show ?case by auto
next
  case (Suc m)
  from Suc.prems(1) obtain d where d: "cycle_result e k cur = Some d"
    and rest: "fails_from e m (Suc k) d"
    by (auto split: option.splits)
  from Suc.prems(2,3) have "get_client e s' \<noteq> None" by (simp add: head_client)
  from cycle_body_ContinueI [OF this d]
  obtain s'' where "cycle_body e n (game_log_name (now s)) k cur s' = Continue d s''" by blast
  with Suc.prems(2,4) have "at_cycle_start e n p s (Suc k) d s''"
    by (intro at_cycle_start.next_cycle) simp_all
  from Suc.IH [OF rest this Suc.prems(3)] Suc.prems(4) show ?case by simp
qed

lemma start_game_exhausted:
  assumes "at_cycle_start e n p s (Suc n) c t"
  shows "start_game e n p s = Done (finish e (game_log_name (now s)) t)"
  using head_run [OF assms] by (simp add: start_game_def run_cycles_exit)

lemma head_calls:
  "at_cycle_start e n p s k cur s' \<Longrightarrow> length (calls s') = length (calls s) + 2 * (k - 1)"
proof (induction rule: at_cycle_start.induct)
  case first_cycle
  show ?case by simp
next
  case (next_cycle k cur s' cur' s'')
  from head_bounds [OF next_cycle.hyps(1)] cycle_body_ContinueD [OF next_cycle.hyps(3)]
    next_cycle.IH
  show ?case by auto
qed

lemma start_game_stopped:
  assumes h: "at_cycle_start e n p s k c t" and kn: "k \<le> n"
    and r: "cycle_result e k c = None"
  shows "cycles (game_state (world_of (start_game e n p s))) = cycles (game_state t) \<and>
         length (calls (world_of (start_game e n p s))) \<le> length (calls t) + 2"
proof (cases "cycle_body e n (game_log_name (now s)) k c t")
  case (Continue d t')
  with r show ?thesis by (simp add: cycle_body_Continue_result)
next
  case (Break t')
  from head_run [OF h] run_cycles_Break [OF kn Break] cycle_body_BreakD [OF Break]
  show ?thesis by (simp add: start_game_def)
next
  case (Raise x t')
  from head_run [OF h] run_cycles_Raise [OF kn Raise] cycle_body_RaiseD [OF Raise]
  show ?thesis by (simp add: start_game_def)
qed

text \<open>What a failure on cycle \<open>k\<close> does to the game, for any services.\<close>

lemma gen_error_uncaught:
  assumes h: "at_cycle_start e n p s k c t" and kn: "k \<le> n"
    and client: "get_client e s \<noteq> None" and g: "gen e k c = GenError msg"
  shows "\<exists>t'. start_game e n p s = Uncaught ValueError t' \<and> game_state t' = game_state t"
proof -
  from client have "get_client e t \<noteq> None" by (simp add: head_client [OF h])
  from cycle_body_gen_error [OF this g] obtain t' where
    b: "cycle_body e n (game_log_name (now s)) k c t = Raise ValueError t'" by blast
  from head_run [OF h] run_cycles_Raise [OF kn b] cycle_body_RaiseD [OF b]
  show ?thesis by (simp add: start_game_def)
qed

lemma ana_failure_completed:
  assumes h: "at_cycle_start e n p s k c t" and kn: "k \<le> n"
    and client: "get_client e s \<noteq> None" and g: "gen e k c = GenImage img url"
    and a: "ana e k url = AnaError msg \<or> ana e k url = AnaContent []"
  shows "\<exists>t'. start_game e n p s = Done (finish e (game_log_name (now s)) t') \<and>
           game_state t' = game_state t"
proof -
  from client have "get_client e t \<noteq> None" by (simp add: head_client [OF h])
  from cycle_body_ana_fail [OF this g a] obtain t' where
    b: "cycle_body e n (game_log_name (now s)) k c t = Break t'" by blast
  from cycle_body_BreakD [OF b] have "game_state t' = game_state t" by simp
  moreover from head_run [OF h] run_cycles_Break [OF kn b]
  have "start_game e n p s = Done (finish e (game_log_name (now s)) t')"
    by (simp add: start_game_def)
  ultimately show ?thesis by blast
qed

subsection \<open>Evaluating the test doubles\<close>

lemma str_nat_numeral:
  "str_nat (numeral v) =
     (if (numeral v :: nat) < 10 then [digit_char (numeral v)]
      else str_nat (numeral v div 10) @ [digit_char (numeral v mod 10)])"
  by (rule str_nat.simps)

lemma str_nat_small:
  "str_nat 0 = ''0''" "str_nat 1 = ''1''" "str_nat (Suc 0) = ''1''" "str_nat (Suc (Suc 0)) = ''2''"
  by (simp_all add: str_nat.simps digit_char_def)

lemma stub_fields:
  "API_KEY stub = ''sk-test''"
  "gen stub k p = GenImage (''image of '' @ p) (''https://images.test/'' @ str_nat k)"
  "ana stub k u = AnaContent ''a feline in pointed headwear''"
  "gen_secs stub k = 0"
  "ana_secs stub k = 0"
  "strftime stub = str_int"
  by (simp_all add: stub_def)

lemma ana_fails_on_fields:
  "API_KEY (ana_fails_on j) = ''sk-test''"
  "gen (ana_fails_on j) k p = GenImage (''image of '' @ p) (''https://images.test/'' @ str_nat k)"
  "ana (ana_fails_on j) k u =
     (if k = j then AnaError ''timeout'' else AnaContent ''a feline in pointed headwear'')"
  "gen_secs (ana_fails_on j) k = 0"
  "ana_secs (ana_fails_on j) k = 0"
  "strftime (ana_fails_on j) = str_int"
  by (simp_all add: ana_fails_on_def stub_def)

lemma gen_fails_on_fields:
  "API_KEY (gen_fails_on j) = ''sk-test''"
  "gen (gen_fails_on j) k p =
     (if k = j then GenError ''quota''
      else GenImage (''image of '' @ p) (''https://images.test/'' @ str_nat k))"
  "ana (gen_fails_on j) k u = AnaContent ''a feline in pointed headwear''"
  "gen_secs (gen_fails_on j) k = 0"
  "ana_secs (gen_fails_on j) k = 0"
  "strftime (gen_fails_on j) = str_int"
  by (simp_all add: gen_fails_on_def stub_def)

lemmas run_eval =
  main_def start_game_def loop_entry_def finish_def run_cycles.simps cycle_body_def
  generate_image_def analyze_image_def get_client_def with_key_def effects idle_def Let_def
  press_start_def w0_def stub_fields ana_fails_on_fields gen_fails_on_fields
  image_name_def game_log_name_def str_int_def str_nat_numeral str_nat_small digit_char_def

lemma starts_on_w0:
  "p \<noteq> [] \<Longrightarrow> game_starts stub (press_start n p) w0"
  "p \<noteq> [] \<Longrightarrow> game_starts (ana_fails_on j) (press_start n p) w0"
  "p \<noteq> [] \<Longrightarrow> game_starts (gen_fails_on j) (press_start n p) w0"
  by (simp_all add: game_starts_def press_start_def w0_def with_key_def get_client_def idle_def
      stub_fields ana_fails_on_fields gen_fails_on_fields)

subsection \<open>Order of the heads, and what a game leaves behind\<close>

lemma head_down:
  "at_cycle_start e n p s k cur s' \<Longrightarrow> 1 \<le> i \<Longrightarrow> i \<le> k \<Longrightarrow> \<exists>c t. at_cycle_start e n p s i c t"
proof (induction rule: at_cycle_start.induct)
  case first_cycle
  then have "i = 1" by simp
  with at_cycle_start.first_cycle [of e n p s] show ?case by auto
next
  case (next_cycle k cur s' cur' s'')
  show ?case
  proof (cases "i = Suc k")
    case True
    with next_cycle.hyps show ?thesis by (auto intro: at_cycle_start.next_cycle)
  next
    case False
    with next_cycle.prems have "i \<le> k" by simp
    with next_cycle.IH next_cycle.prems(1) show ?thesis by simp
  qed
qed

lemma head_pred:
  assumes "at_cycle_start e n p s (Suc j) c' t'" and "1 \<le> j"
  shows "\<exists>c t. at_cycle_start e n p s j c t \<and> j \<le> n \<and>
           cycle_body e n (game_log_name (now s)) j c t = Continue c' t'"
  using assms by (cases rule: at_cycle_start.cases) auto

lemma head_prefix:
  "at_cycle_start e n p s k cur s' \<Longrightarrow> at_cycle_start e n p s j c t \<Longrightarrow> j \<le> k \<Longrightarrow>
   prefix (cycles (game_state t)) (cycles (game_state s'))"
proof (induction arbitrary: j c t rule: at_cycle_start.induct)
  case first_cycle
  from head_bounds [OF first_cycle.prems(1)] first_cycle.prems(2) have "j = 1" by simp
  with first_cycle.prems(1) head_unique [OF at_cycle_start.first_cycle, of e n p s c t]
  show ?case by simp
next
  case (next_cycle k cur s' cur' s'')
  have new: "at_cycle_start e n p s (Suc k) cur' s''"
    using next_cycle.hyps by (auto intro: at_cycle_start.next_cycle)
  show ?case
  proof (cases "j = Suc k")
    case True
    with next_cycle.prems(1) head_unique [OF new, of c t] show ?thesis by simp
  next
    case False
    with next_cycle.prems have "j \<le> k" by simp
    from next_cycle.IH [OF next_cycle.prems(1) this]
      cycle_body_ContinueD [OF next_cycle.hyps(3)]
    show ?thesis by (auto simp: prefix_def)
  qed
qed

lemma head_not_past_stop:
  assumes h: "at_cycle_start e n p s j c t"
    and stop: "\<forall>d t'. cycle_body e n (game_log_name (now s)) j c t \<noteq> Continue d t'"
    and h': "at_cycle_start e n p s k cur s'"
  shows "k \<le> j"
proof (rule ccontr)
  assume "\<not> k \<le> j"
  then have "Suc j \<le> k" by simp
  from head_down [OF h' _ this] obtain c' t' where n: "at_cycle_start e n p s (Suc j) c' t'"
    by auto
  from head_bounds [OF h] have "1 \<le> j" by simp
  from head_pred [OF n this] obtain c2 t2 where
    h2: "at_cycle_start e n p s j c2 t2"
    and b: "cycle_body e n (game_log_name (now s)) j c2 t2 = Continue c' t'" by auto
  from head_unique [OF h h2] b stop show False by simp
qed

lemma start_game_final:
  "\<exists>j c t. at_cycle_start e n p s j c t \<and>
     cycles (game_state (world_of (start_game e n p s))) = cycles (game_state t) \<and>
     (\<forall>k cur s'. at_cycle_start e n p s k cur s' \<longrightarrow> k \<le> j)"
  using start_game_cases [of e n p s]
proof (elim disjE exE conjE)
  fix c t
  assume h: "at_cycle_start e n p s (Suc n) c t"
    and r: "start_game e n p s = Done (finish e (game_log_name (now s)) t)"
  have "\<forall>k cur s'. at_cycle_start e n p s k cur s' \<longrightarrow> k \<le> Suc n"
    by (auto dest: head_bounds)
  with h r show ?thesis by (intro exI [of _ "Suc n"] exI [of _ c] exI [of _ t]) simp
next
  fix j c t t'
  assume h: "at_cycle_start e n p s j c t" and "j \<le> n"
    and b: "cycle_body e n (game_log_name (now s)) j c t = Break t'"
    and r: "start_game e n p s = Done (finish e (game_log_name (now s)) t')"
  from b have "\<forall>d t'. cycle_body e n (game_log_name (now s)) j c t \<noteq> Continue d t'" by simp
  from head_not_past_stop [OF h this]
  have "\<forall>k cur s'. at_cycle_start e n p s k cur s' \<longrightarrow> k \<le> j" by blast
  with h r cycle_body_BreakD [OF b] show ?thesis
    by (intro exI [of _ j] exI [of _ c] exI [of _ t]) simp
next
  fix j c t x t'
  assume h: "at_cycle_start e n p s j c t" and "j \<le> n"
    and b: "cycle_body e n (game_log_name (now s)) j c t = Raise x t'"
    and r: "start_game e n p s = Uncaught x t'"
  from b have "\<forall>d t'. cycle_body e n (game_log_name (now s)) j c t \<noteq> Continue d t'" by simp
  from head_not_past_stop [OF h this]
  have "\<forall>k cur s'. at_cycle_start e n p s k cur s' \<longrightarrow> k \<le> j" by blast
  with h r cycle_body_RaiseD [OF b] show ?thesis
    by (intro exI [of _ j] exI [of _ c] exI [of _ t]) simp
qed

lemma head_final_prefix:
  assumes "at_cycle_start e n p s k cur s'"
  shows "prefix (cycles (game_state s')) (cycles (game_state (world_of (start_game e n p s))))"
proof -
  from start_game_final [of e n p s] obtain j c t where
    h: "at_cycle_start e n p s j c t"
    and c: "cycles (game_state (world_of (start_game e n p s))) = cycles (game_state t)"
    and m: "\<forall>k cur s'. at_cycle_start e n p s k cur s' \<longrightarrow> k \<le> j" by blast
  from m assms have "k \<le> j" by blast
  from head_prefix [OF h assms this] c show ?thesis by simp
qed

lemma start_game_log:
  "fs (world_of (start_game e n p s)) (game_log_name (now s)) =
     Some (header_text e (now s) p @
           concat (map (log_block n) (cycles (game_state (world_of (start_game e n p s))))) @
           (case uncaught (start_game e n p s) of
              None \<Rightarrow> footer_text e (now (world_of (start_game e n p s)))
            | Some x \<Rightarrow> []))"
  using start_game_cases [of e n p s]
proof (elim disjE exE conjE)
  fix c t
  assume h: "at_cycle_start e n p s (Suc n) c t"
    and r: "start_game e n p s = Done (finish e (game_log_name (now s)) t)"
  from head_log [OF h] r show ?thesis by simp
next
  fix j c t t'
  assume h: "at_cycle_start e n p s j c t" and "j \<le> n"
    and b: "cycle_body e n (game_log_name (now s)) j c t = Break t'"
    and r: "start_game e n p s = Done (finish e (game_log_name (now s)) t')"
  from cycle_body_BreakD [OF b] have "fs t' (game_log_name (now s)) = fs t (game_log_name (now s))"
    and "game_state t' = game_state t" by simp_all
  with head_log [OF h] r show ?thesis by simp
next
  fix j c t x t'
  assume h: "at_cycle_start e n p s j c t" and "j \<le> n"
    and b: "cycle_body e n (game_log_name (now s)) j c t = Raise x t'"
    and r: "start_game e n p s = Uncaught x t'"
  from cycle_body_RaiseD [OF b] head_log [OF h] r show ?thesis by simp
qed

lemma head_untouched:
  "at_cycle_start e n p s k cur s' \<Longrightarrow> q \<noteq> game_log_name (now s) \<Longrightarrow>
   \<forall>t\<ge>now s. q \<noteq> image_name t \<Longrightarrow> fs s' q = fs s q"
proof (induction rule: at_cycle_start.induct)
  case first_cycle
  then show ?case by simp
next
  case (next_cycle k cur s' cur' s'')
  from head_now [OF next_cycle.hyps(1)] have "now s \<le> now s' + int (gen_secs e k)" by simp
  with next_cycle.prems(2) have "q \<noteq> image_name (now s' + int (gen_secs e k))" by blast
  with cycle_body_ContinueD [OF next_cycle.hyps(3)] next_cycle.IH next_cycle.prems
  show ?case by auto
qed

lemma start_game_untouched:
  assumes "q \<noteq> game_log_name (now s)" and "\<forall>t\<ge>now s. q \<noteq> image_name t"
  shows "fs (world_of (start_game e n p s)) q = fs s q"
  using start_game_cases [of e n p s]
proof (elim disjE exE conjE)
  fix c t
  assume h: "at_cycle_start e n p s (Suc n) c t"
    and r: "start_game e n p s = Done (finish e (game_log_name (now s)) t)"
  from head_untouched [OF h assms] r assms(1) show ?thesis by simp
next
  fix j c t t'
  assume h: "at_cycle_start e n p s j c t" and "j \<le> n"
    and b: "cycle_body e n (game_log_name (now s)) j c t = Break t'"
    and r: "start_game e n p s = Done (finish e (game_log_name (now s)) t')"
  from head_now [OF h] have "now s \<le> now t + int (gen_secs e j)" by simp
  with assms(2) have "q \<noteq> image_name (now t + int (gen_secs e j))" by blast
  with cycle_body_BreakD [OF b] have "fs t' q = fs t q" by simp
  with head_untouched [OF h assms] r assms(1) show ?thesis by simp
next
  fix j c t x t'
  assume h: "at_cycle_start e n p s j c t" and "j \<le> n"
    and b: "cycle_body e n (game_log_name (now s)) j c t = Raise x t'"
    and r: "start_game e n p s = Uncaught x t'"
  from cycle_body_RaiseD [OF b] head_untouched [OF h assms] r show ?thesis by simp
qed

lemma start_game_log_path:
  "log_path (game_state (world_of (start_game e n p s))) = Some (game_log_name (now s))"
  using start_game_cases [of e n p s]
proof (elim disjE exE conjE)
  fix c t
  assume h: "at_cycle_start e n p s (Suc n) c t"
    and r: "start_game e n p s = Done (finish e (game_log_name (now s)) t)"
  from head_game [OF h] r show ?thesis by simp
next
  fix j c t t'
  assume h: "at_cycle_start e n p s j c t" and "j \<le> n"
    and b: "cycle_body e n (game_log_name (now s)) j c t = Break t'"
    and r: "start_game e n p s = Done (finish e (game_log_name (now s)) t')"
  from cycle_body_BreakD [OF b] head_game [OF h] r show ?thesis by simp
next
  fix j c t x t'
  assume h: "at_cycle_start e n p s j c t" and "j \<le> n"
    and b: "cycle_body e n (game_log_name (now s)) j c t = Raise x t'"
    and r: "start_game e n p s = Uncaught x t'"
  from cycle_body_RaiseD [OF b] head_game [OF h] r show ?thesis by simp
qed

lemma head_images:
  "at_cycle_start e n p s k cur s' \<Longrightarrow>
   distinct (map image_path (cycles (game_state s'))) \<and>
   (\<forall>c\<in>set (cycles (game_state s')).
      \<exists>t. image_path c = image_name t \<and> now s \<le> t \<and>
          t + (if k \<le> n then 1 else 0) \<le> now s' \<and>
          fs s' (image_path c) = Some (image_d c))"
proof (induction rule: at_cycle_start.induct)
  case first_cycle
  show ?case by simp
next
  case (next_cycle k cur s' cur' s'')
  let ?T = "now s' + int (gen_secs e k)"
  from cycle_body_ContinueD [OF next_cycle.hyps(3)] obtain img url where
    g: "game_state s'' = (game_state s')\<lparr>cycles := cycles (game_state s') @
          [\<lparr>cycle = k, prompt = cur, image_d = img, image_path = image_name ?T,
            description = cur'\<rparr>]\<rparr>"
    and f: "fs s'' = ((fs s')(image_name ?T \<mapsto> img))
             (game_log_name (now s) \<mapsto>
                (case ((fs s')(image_name ?T \<mapsto> img)) (game_log_name (now s)) of
                   None \<Rightarrow> [] | Some old \<Rightarrow> old) @ cycle_text k n cur (image_name ?T) cur')"
    and t: "now s'' = ?T + int (ana_secs e k) + (if k < n then 1 else 0)"
    by blast
  from next_cycle.IH next_cycle.hyps(2) have old:
    "\<forall>c\<in>set (cycles (game_state s')).
      \<exists>t. image_path c = image_name t \<and> now s \<le> t \<and> t + 1 \<le> now s' \<and>
          fs s' (image_path c) = Some (image_d c)"
    and d: "distinct (map image_path (cycles (game_state s')))" by simp_all
  have fresh: "image_name ?T \<notin> image_path ` set (cycles (game_state s'))"
  proof
    assume "image_name ?T \<in> image_path ` set (cycles (game_state s'))"
    then obtain c where "c \<in> set (cycles (game_state s'))" and "image_path c = image_name ?T"
      by auto
    with old obtain t where "image_name t = image_name ?T" and "t + 1 \<le> now s'" by force
    then show False by simp
  qed
  have keep: "\<exists>t. image_path c = image_name t \<and> now s \<le> t \<and>
          t + (if Suc k \<le> n then 1 else 0) \<le> now s'' \<and>
          fs s'' (image_path c) = Some (image_d c)"
    if "c \<in> set (cycles (game_state s'))" for c
  proof -
    from old that obtain t0 where c: "image_path c = image_name t0" "now s \<le> t0"
      "t0 + 1 \<le> now s'" "fs s' (image_path c) = Some (image_d c)" by blast
    from c(3) have "t0 \<noteq> ?T" by simp
    with c f have "fs s'' (image_path c) = Some (image_d c)" by simp
    moreover from c(3) t have "t0 + (if Suc k \<le> n then 1 else 0) \<le> now s''" by simp
    ultimately show ?thesis using c(1,2) by blast
  qed
  have new: "\<exists>t. image_name ?T = image_name t \<and> now s \<le> t \<and>
          t + (if Suc k \<le> n then 1 else 0) \<le> now s'' \<and>
          fs s'' (image_name ?T) = Some img"
  proof -
    from head_now [OF next_cycle.hyps(1)] have "now s \<le> ?T" by simp
    moreover from t have "?T + (if Suc k \<le> n then 1 else 0) \<le> now s''" by auto
    moreover from f have "fs s'' (image_name ?T) = Some img" by simp
    ultimately show ?thesis by blast
  qed
  from g d fresh keep new show ?case by auto
qed

lemma start_game_images:
  "distinct (map image_path (cycles (game_state (world_of (start_game e n p s))))) \<and>
   (\<forall>c\<in>set (cycles (game_state (world_of (start_game e n p s)))).
      fs (world_of (start_game e n p s)) (image_path c) = Some (image_d c) \<and>
      (\<exists>t\<ge>now s. image_path c = image_name t))"
  using start_game_cases [of e n p s]
proof (elim disjE exE conjE)
  fix c t
  assume h: "at_cycle_start e n p s (Suc n) c t"
    and r: "start_game e n p s = Done (finish e (game_log_name (now s)) t)"
  from head_images [OF h] r show ?thesis by force
next
  fix j c t t'
  assume h: "at_cycle_start e n p s j c t" and jn: "j \<le> n"
    and b: "cycle_body e n (game_log_name (now s)) j c t = Break t'"
    and r: "start_game e n p s = Done (finish e (game_log_name (now s)) t')"
  from cycle_body_BreakD [OF b] have g: "game_state t' = game_state t"
    and f: "\<forall>q. q \<noteq> image_name (now t + int (gen_secs e j)) \<longrightarrow> fs t' q = fs t q" by simp_all
  from head_images [OF h] jn have d: "distinct (map image_path (cycles (game_state t)))"
    and old: "\<forall>c\<in>set (cycles (game_state t)).
      \<exists>t0. image_path c = image_name t0 \<and> now s \<le> t0 \<and> t0 + 1 \<le> now t \<and>
          fs t (image_path c) = Some (image_d c)" by simp_all
  have "fs t' (image_path c) = Some (image_d c) \<and> (\<exists>t\<ge>now s. image_path c = image_name t)"
    if "c \<in> set (cycles (game_state t))" for c
  proof -
    from old that obtain t0 where c: "image_path c = image_name t0" "now s \<le> t0"
      "t0 + 1 \<le> now t" "fs t (image_path c) = Some (image_d c)" by blast
    from c(3) have "t0 \<noteq> now t + int (gen_secs e j)" by simp
    with c f have "fs t' (image_path c) = Some (image_d c)" by simp
    with c(1,2) show ?thesis by blast
  qed
  with d g r show ?thesis by force
next
  fix j c t x t'
  assume h: "at_cycle_start e n p s j c t" and jn: "j \<le> n"
    and b: "cycle_body e n (game_log_name (now s)) j c t = Raise x t'"
    and r: "start_game e n p s = Uncaught x t'"
  from cycle_body_RaiseD [OF b] have g: "game_state t' = game_state t" and f: "fs t' = fs t"
    by simp_all
  from head_images [OF h] g f r show ?thesis by force
qed

lemma stub_second_head:
  "p \<noteq> [] \<Longrightarrow> \<exists>cur s'. at_cycle_start stub 3 p w0 2 cur s'"
proof -
  assume p: "p \<noteq> []"
  have c: "get_client stub (loop_entry stub p w0) \<noteq> None"
    by (simp add: get_client_def w0_def stub_fields)
  have r: "cycle_result stub 1 p = Some ''a feline in pointed headwear''"
    by (simp add: cycle_result_def stub_fields)
  from cycle_body_ContinueI [OF c r] obtain s' where
    "cycle_body stub 3 (game_log_name (now w0)) 1 p (loop_entry stub p w0) =
       Continue ''a feline in pointed headwear'' s'" by blast
  with at_cycle_start.first_cycle [of stub 3 p w0]
  have "at_cycle_start stub 3 p w0 (Suc 1) ''a feline in pointed headwear'' s'"
    by (intro at_cycle_start.next_cycle) simp_all
  then show ?thesis by (auto simp: numeral_2_eq_2)
qed

lemma press_start_w0 [simp]: "with_key (press_start n p) w0 = w0"
  "slider_cycles (press_start n p) = n" "initial_prompt (press_start n p) = p"
  by (simp_all add: with_key_def press_start_def)

section \<open>The claims\<close>

text \<open>
  Claim C1. In every game in which all \<open>n\<close> requested cycles succeed, \<^verbatim>\<open>main\<close> runs
  to its end, the session holds exactly \<open>n\<close> cycle records, the session reads as
  completed, the first record's prompt is the initial prompt, and every later record's
  prompt is the description of the record before it.
\<close>

theorem all_cycles_succeed_completed:
  assumes "game_starts e inp s"
    and "all_cycles_succeed e (initial_prompt inp) (slider_cycles inp)"
  shows "\<exists>s'. main e inp s = Done s' \<and>
           length (cycles (game_state s')) = slider_cycles inp \<and>
           status_of (game_state s') = Completed \<and>
           (\<forall>i < length (cycles (game_state s')).
              prompt (cycles (game_state s') ! i) =
                (if i = 0 then initial_prompt inp
                 else description (cycles (game_state s') ! (i - 1))))"
proof -
  let ?n = "slider_cycles inp" and ?p = "initial_prompt inp" and ?s = "with_key inp s"
  from assms(1) have client: "get_client e ?s \<noteq> None" by (simp add: game_starts_def)
  from assms(2) have "succeed_from e ?n 1 ?p" by (simp add: all_cycles_succeed_def)
  from succeed_reaches [OF this at_cycle_start.first_cycle client]
  obtain c t where h: "at_cycle_start e ?n ?p ?s (Suc ?n) c t" by auto
  from main_starts [OF assms(1)] start_game_exhausted [OF h]
  have m: "main e inp s = Done (finish e (game_log_name (now s)) t)" by simp
  from head_game [OF h] have g: "map cycle (cycles (game_state t)) = [1..<Suc ?n]"
    and lp: "log_path (game_state t) \<noteq> None" by simp_all
  from g have "length (map cycle (cycles (game_state t))) = ?n" by simp
  then have len: "length (cycles (game_state t)) = ?n" by simp
  from head_chain [OF h] have "chained ?p (cycles (game_state t))" by simp
  then have ch: "\<forall>i < length (cycles (game_state t)).
      prompt (cycles (game_state t) ! i) =
        (if i = 0 then ?p else description (cycles (game_state t) ! (i - 1)))"
    by (simp add: chained_nth)
  from m len lp ch show ?thesis by (simp add: status_of_def)
qed

text \<open>
  The scenario of the specification: three cycles on "a cat wearing a wizard hat" with
  services that always succeed.
\<close>

theorem all_cycles_succeed_completed_witness:
  "game_starts stub (press_start 3 ''a cat wearing a wizard hat'') w0 \<and>
   all_cycles_succeed stub ''a cat wearing a wizard hat'' 3 \<and>
   (\<exists>s'. main stub (press_start 3 ''a cat wearing a wizard hat'') w0 = Done s' \<and>
      length (cycles (game_state s')) = 3 \<and> status_of (game_state s') = Completed \<and>
      prompt (cycles (game_state s') ! 0) = ''a cat wearing a wizard hat'' \<and>
      prompt (cycles (game_state s') ! 1) = description (cycles (game_state s') ! 0) \<and>
      prompt (cycles (game_state s') ! 2) = description (cycles (game_state s') ! 1)) \<and>
   map prompt (cycles (game_state (world_of
       (main stub (press_start 3 ''a cat wearing a wizard hat'') w0)))) =
     [''a cat wearing a wizard hat'', ''a feline in pointed headwear'',
      ''a feline in pointed headwear'']"
proof -
  let ?inp = "press_start 3 ''a cat wearing a wizard hat''"
  have a: "game_starts stub ?inp w0" by (simp add: starts_on_w0)
  have b: "all_cycles_succeed stub ''a cat wearing a wizard hat'' 3"
    by (simp add: all_cycles_succeed_def numeral_3_eq_3 cycle_result_def stub_fields)
  have b': "all_cycles_succeed stub (initial_prompt ?inp) (slider_cycles ?inp)"
    using b by simp
  have c: "map prompt (cycles (game_state (world_of (main stub ?inp w0)))) =
     [''a cat wearing a wizard hat'', ''a feline in pointed headwear'',
      ''a feline in pointed headwear'']"
    by (simp add: run_eval)
  from all_cycles_succeed_completed [OF a b'] obtain s' where
    s': "main stub ?inp w0 = Done s'" "length (cycles (game_state s')) = 3"
      "status_of (game_state s') = Completed"
      "\<forall>i<length (cycles (game_state s')). prompt (cycles (game_state s') ! i) =
         (if i = 0 then ''a cat wearing a wizard hat''
          else description (cycles (game_state s') ! (i - 1)))"
    by auto
  from s'(2,4) have "prompt (cycles (game_state s') ! 0) = ''a cat wearing a wizard hat''"
    "prompt (cycles (game_state s') ! 1) = description (cycles (game_state s') ! 0)"
    "prompt (cycles (game_state s') ! 2) = description (cycles (game_state s') ! 1)"
    by simp_all
  with s'(1-3) a b c show ?thesis by blast
qed

text \<open>
  Claim C2, as amended. If a capability fails on cycle \<open>k\<close>, the cycles before it
  having succeeded, the loop stops there: the session holds exactly the \<open>k - 1\<close>
  records of the cycles \<open>1, \<dots>, k - 1\<close>, none for cycle \<open>k\<close>, and at most two
  remote calls per cycle up to \<open>k\<close> have been made. Nothing is said about a status:
  the session dictionary has no entry that could hold an aborted state.
\<close>

theorem failure_stops_at_cycle:
  assumes "game_starts e inp s" and "fails_on_cycle e (initial_prompt inp) k"
    and "k \<le> slider_cycles inp"
  shows "length (cycles (game_state (world_of (main e inp s)))) = k - 1 \<and>
         map cycle (cycles (game_state (world_of (main e inp s)))) = [1..<k] \<and>
         length (calls (world_of (main e inp s))) \<le> length (calls s) + 2 * k"
proof -
  let ?n = "slider_cycles inp" and ?p = "initial_prompt inp" and ?s = "with_key inp s"
  from assms(1) have client: "get_client e ?s \<noteq> None" by (simp add: game_starts_def)
  from assms(2) have k: "0 < k" and f: "fails_from e (k - 1) 1 ?p"
    by (simp_all add: fails_on_cycle_def)
  from k assms(3) have "1 + (k - 1) \<le> ?n" by simp
  from fails_reaches [OF f at_cycle_start.first_cycle client this] k
  obtain c t where h: "at_cycle_start e ?n ?p ?s k c t" and r: "cycle_result e k c = None"
    by auto
  from start_game_stopped [OF h assms(3) r] main_starts [OF assms(1)]
  have cs: "cycles (game_state (world_of (main e inp s))) = cycles (game_state t)"
    and ca: "length (calls (world_of (main e inp s))) \<le> length (calls t) + 2" by simp_all
  from head_game [OF h] have m: "map cycle (cycles (game_state t)) = [1..<k]" by simp
  then have "length (map cycle (cycles (game_state t))) = k - 1" by simp
  then have len: "length (cycles (game_state t)) = k - 1" by simp
  from head_calls [OF h] ca k have "length (calls (world_of (main e inp s))) \<le> length (calls s) + 2 * k"
    by (cases k) simp_all
  with cs m len show ?thesis by simp
qed

theorem failure_stops_at_cycle_witness:
  "game_starts (ana_fails_on 2) (press_start 3 ''a cat wearing a wizard hat'') w0 \<and>
   fails_on_cycle (ana_fails_on 2) ''a cat wearing a wizard hat'' 2 \<and>
   length (cycles (game_state (world_of
     (main (ana_fails_on 2) (press_start 3 ''a cat wearing a wizard hat'') w0)))) = 1"
proof -
  let ?inp = "press_start 3 ''a cat wearing a wizard hat''"
  have a: "game_starts (ana_fails_on 2) ?inp w0" by (simp add: starts_on_w0)
  have b: "fails_on_cycle (ana_fails_on 2) ''a cat wearing a wizard hat'' 2"
    by (simp add: fails_on_cycle_def cycle_result_def ana_fails_on_fields)
  then have b': "fails_on_cycle (ana_fails_on 2) (initial_prompt ?inp) 2"
    by (simp add: press_start_def)
  have c: "2 \<le> slider_cycles ?inp" by (simp add: press_start_def)
  from failure_stops_at_cycle [OF a b' c] a b show ?thesis by simp
qed

text \<open>
  Claim C2 as stated fails: when the analysis fails on cycle 2 of 2, the session does
  not read as aborted. It is, entry for entry, the session that a completed game of
  one cycle leaves behind, so nothing computed from the session can tell the two apart.
\<close>

theorem failed_analysis_not_aborted:
  "fails_on_cycle (ana_fails_on 2) ''a cat wearing a wizard hat'' 2 \<and>
   status_of (game_state (world_of
     (main (ana_fails_on 2) (press_start 2 ''a cat wearing a wizard hat'') w0))) = Completed \<and>
   status_of (game_state (world_of
     (main (ana_fails_on 2) (press_start 2 ''a cat wearing a wizard hat'') w0))) \<noteq> Aborted \<and>
   game_state (world_of
     (main (ana_fails_on 2) (press_start 2 ''a cat wearing a wizard hat'') w0)) =
   game_state (world_of (main stub (press_start 1 ''a cat wearing a wizard hat'') w0))"
proof -
  have b: "fails_on_cycle (ana_fails_on 2) ''a cat wearing a wizard hat'' 2"
    by (simp add: fails_on_cycle_def cycle_result_def ana_fails_on_fields)
  have m1: "game_state (world_of
      (main (ana_fails_on 2) (press_start 2 ''a cat wearing a wizard hat'') w0)) =
     \<lparr>running = False,
      cycles = [\<lparr>cycle = 1, prompt = ''a cat wearing a wizard hat'',
                 image_d = ''image of a cat wearing a wizard hat'',
                 image_path = ''telephone_game/image_1700000000.png'',
                 description = ''a feline in pointed headwear''\<rparr>],
      log_path = Some ''telephone_game/game_log_1700000000.txt''\<rparr>"
    by (simp add: run_eval)
  have m2: "game_state (world_of (main stub (press_start 1 ''a cat wearing a wizard hat'') w0)) =
     \<lparr>running = False,
      cycles = [\<lparr>cycle = 1, prompt = ''a cat wearing a wizard hat'',
                 image_d = ''image of a cat wearing a wizard hat'',
                 image_path = ''telephone_game/image_1700000000.png'',
                 description = ''a feline in pointed headwear''\<rparr>],
      log_path = Some ''telephone_game/game_log_1700000000.txt''\<rparr>"
    by (simp add: run_eval)
  from b m1 m2 show ?thesis by (simp add: status_of_def)
qed

text \<open>
  Claim C3 at a failing input: the analysis fails on cycle 2 of 3. The game log then
  holds the header, one cycle block and the footer, and the page announces the game as
  completed: the lines after the loop (source lines 272-279) are reached by
  \<^verbatim>\<open>break\<close> as well.
\<close>

theorem footer_after_failed_analysis:
  "fails_on_cycle (ana_fails_on 2) ''a cat wearing a wizard hat'' 2 \<and>
   length (cycles (game_state (world_of
     (main (ana_fails_on 2) (press_start 3 ''a cat wearing a wizard hat'') w0)))) = 1 \<and>
   fs (world_of (main (ana_fails_on 2) (press_start 3 ''a cat wearing a wizard hat'') w0))
     ''telephone_game/game_log_1700000000.txt'' =
   Some (header_text (ana_fails_on 2) 1700000000 ''a cat wearing a wizard hat'' @
         cycle_text 1 3 ''a cat wearing a wizard hat'' ''telephone_game/image_1700000000.png''
           ''a feline in pointed headwear'' @
         footer_text (ana_fails_on 2) 1700000001) \<and>
   last (ui (world_of (main (ana_fails_on 2) (press_start 3 ''a cat wearing a wizard hat'') w0))) =
     Status_completed"
proof -
  have b: "fails_on_cycle (ana_fails_on 2) ''a cat wearing a wizard hat'' 2"
    by (simp add: fails_on_cycle_def cycle_result_def ana_fails_on_fields)
  have c: "length (cycles (game_state (world_of
     (main (ana_fails_on 2) (press_start 3 ''a cat wearing a wizard hat'') w0)))) = 1"
    by (simp add: run_eval)
  have d: "fs (world_of (main (ana_fails_on 2) (press_start 3 ''a cat wearing a wizard hat'') w0))
     ''telephone_game/game_log_1700000000.txt'' =
   Some (header_text (ana_fails_on 2) 1700000000 ''a cat wearing a wizard hat'' @
         cycle_text 1 3 ''a cat wearing a wizard hat'' ''telephone_game/image_1700000000.png''
           ''a feline in pointed headwear'' @
         footer_text (ana_fails_on 2) 1700000001)"
    by (simp add: run_eval)
  have e: "last (ui (world_of
     (main (ana_fails_on 2) (press_start 3 ''a cat wearing a wizard hat'') w0))) = Status_completed"
    by (simp add: run_eval)
  from b c d e show ?thesis by simp
qed

text \<open>
  Claim C4 at a failing input: the image service raises on cycle 2 of 3. The handler
  in \<^verbatim>\<open>generate_image\<close> reports the error and returns four values (source line 80),
  the caller unpacks three (line 234), and \<^verbatim>\<open>ValueError\<close> leaves \<^verbatim>\<open>main\<close>; the
  session is left with its \<^verbatim>\<open>running\<close> flag set.
\<close>

theorem generation_error_escapes_main:
  "uncaught (main (gen_fails_on 2) (press_start 3 ''a cat wearing a wizard hat'') w0) =
     Some ValueError \<and>
   running (game_state (world_of
     (main (gen_fails_on 2) (press_start 3 ''a cat wearing a wizard hat'') w0))) \<and>
   last (ui (world_of (main (gen_fails_on 2) (press_start 3 ''a cat wearing a wizard hat'') w0))) =
     Error_generating ''quota''"
proof -
  have a: "uncaught (main (gen_fails_on 2) (press_start 3 ''a cat wearing a wizard hat'') w0) =
     Some ValueError"
    by (simp add: run_eval)
  have b: "running (game_state (world_of
     (main (gen_fails_on 2) (press_start 3 ''a cat wearing a wizard hat'') w0)))"
    by (simp add: run_eval)
  have c: "last (ui (world_of
     (main (gen_fails_on 2) (press_start 3 ''a cat wearing a wizard hat'') w0))) =
     Error_generating ''quota''"
    by (simp add: run_eval)
  from a b c show ?thesis by simp
qed

text \<open>
  Claim C5. When no client can be built (no key in the field, none stored, none in
  the environment), pressing start only shows the warning: the session, the files and
  the list of remote calls are what they were.
\<close>

theorem no_credential_no_game:
  assumes "get_client e (with_key inp s) = None" and "\<not> clear_clicked inp"
  shows "main e inp s = Done (show_ui Warning_no_key s) \<and>
         game_state (world_of (main e inp s)) = game_state s \<and>
         fs (world_of (main e inp s)) = fs s \<and>
         calls (world_of (main e inp s)) = calls s"
  using assms no_client_no_key [OF assms(1)]
  by (simp add: main_def Let_def show_ui_def)

theorem no_credential_no_game_witness:
  "get_client (stub\<lparr>API_KEY := []\<rparr>) (with_key (press_start 3 ''a cat'') w0) = None \<and>
   \<not> clear_clicked (press_start 3 ''a cat'') \<and>
   main (stub\<lparr>API_KEY := []\<rparr>) (press_start 3 ''a cat'') w0 = Done (show_ui Warning_no_key w0) \<and>
   fs (world_of (main (stub\<lparr>API_KEY := []\<rparr>) (press_start 3 ''a cat'') w0)) = fs w0 \<and>
   calls (world_of (main (stub\<lparr>API_KEY := []\<rparr>) (press_start 3 ''a cat'') w0)) = []"
proof -
  have a: "get_client (stub\<lparr>API_KEY := []\<rparr>) (with_key (press_start 3 ''a cat'') w0) = None"
    by (simp add: get_client_def with_key_def press_start_def w0_def)
  have b: "\<not> clear_clicked (press_start 3 ''a cat'')" by (simp add: press_start_def)
  have c: "calls w0 = []" by (simp add: w0_def)
  from no_credential_no_game [OF a b] a b c show ?thesis by (simp add: show_ui_def)
qed

text \<open>
  Claim C10. With an empty prompt, pressing start changes neither the session nor the
  files, makes no remote call, and shows no message about the prompt (the only message
  possible is the warning about a missing key).
\<close>

theorem empty_prompt_ignored:
  assumes "initial_prompt inp = []" and "\<not> clear_clicked inp"
  shows "\<exists>s'. main e inp s = Done s' \<and> game_state s' = game_state s \<and> fs s' = fs s \<and>
           calls s' = calls s \<and> now s' = now s \<and>
           ui s' = ui s @ (if get_client e (with_key inp s) = None then [Warning_no_key] else [])"
  using assms by (simp add: main_def Let_def show_ui_def)


theorem empty_prompt_ignored_witness:
  "initial_prompt (press_start 3 []) = [] \<and> \<not> clear_clicked (press_start 3 []) \<and>
   (\<exists>s'. main stub (press_start 3 []) w0 = Done s' \<and> game_state s' = idle \<and>
      fs s' = Map.empty \<and> calls s' = [] \<and> ui s' = [])"
proof -
  have a: "initial_prompt (press_start 3 []) = []" by (simp add: press_start_def)
  have b: "\<not> clear_clicked (press_start 3 [])" by (simp add: press_start_def)
  have c: "get_client stub (with_key (press_start 3 []) w0) \<noteq> None"
    by (simp add: get_client_def with_key_def press_start_def w0_def stub_fields)
  from empty_prompt_ignored [OF a b, of stub w0] a b c show ?thesis
    by (auto simp: w0_def)
qed

text \<open>
  Claim C6. Whenever the loop of a game stands at the start of cycle \<open>k\<close>, the
  session holds exactly \<open>k - 1\<close> records, numbered \<open>1, \<dots>, k - 1\<close> in this order.
  The records present at an earlier start of a cycle are an initial segment of those
  present at a later one, and of those the game leaves behind however it ends: a record
  is appended once and then stays as it is.
\<close>

theorem records_grow_in_order:
  assumes "game_starts e inp s"
    and "at_cycle_start e (slider_cycles inp) (initial_prompt inp) (with_key inp s) k cur s'"
  shows "length (cycles (game_state s')) = k - 1 \<and>
         map cycle (cycles (game_state s')) = [1..<k] \<and>
         (\<forall>j c t. at_cycle_start e (slider_cycles inp) (initial_prompt inp) (with_key inp s) j c t \<and>
                  j \<le> k \<longrightarrow>
                  prefix (cycles (game_state t)) (cycles (game_state s'))) \<and>
         prefix (cycles (game_state s')) (cycles (game_state (world_of (main e inp s))))"
proof -
  from head_game [OF assms(2)] have m: "map cycle (cycles (game_state s')) = [1..<k]" by simp
  then have "length (map cycle (cycles (game_state s'))) = k - 1" by simp
  then have len: "length (cycles (game_state s')) = k - 1" by simp
  from head_prefix [OF assms(2)] have pre:
    "\<forall>j c t. at_cycle_start e (slider_cycles inp) (initial_prompt inp) (with_key inp s) j c t \<and>
        j \<le> k \<longrightarrow> prefix (cycles (game_state t)) (cycles (game_state s'))" by blast
  from head_final_prefix [OF assms(2)] main_starts [OF assms(1)]
  have "prefix (cycles (game_state s')) (cycles (game_state (world_of (main e inp s))))" by simp
  with m len pre show ?thesis by blast
qed

theorem records_grow_in_order_witness:
  "game_starts stub (press_start 3 ''a cat'') w0 \<and>
   (\<exists>cur s'. at_cycle_start stub 3 ''a cat'' w0 2 cur s' \<and>
      length (cycles (game_state s')) = 1 \<and> map cycle (cycles (game_state s')) = [1] \<and>
      prefix (cycles (game_state s'))
        (cycles (game_state (world_of (main stub (press_start 3 ''a cat'') w0)))))"
proof -
  have a: "game_starts stub (press_start 3 ''a cat'') w0" by (simp add: starts_on_w0)
  from stub_second_head [of "''a cat''"] obtain cur s' where
    h: "at_cycle_start stub 3 ''a cat'' w0 2 cur s'" by auto
  then have h': "at_cycle_start stub (slider_cycles (press_start 3 ''a cat''))
      (initial_prompt (press_start 3 ''a cat'')) (with_key (press_start 3 ''a cat'') w0) 2 cur s'"
    by simp
  have u: "[1..<2] = [1::nat]" by (simp add: numeral_2_eq_2)
  from records_grow_in_order [OF a h'] a h u show ?thesis
    by (intro conjI exI [of _ cur] exI [of _ s']) simp_all
qed

text \<open>
  Claim C7. Once cycle \<open>k\<close> has succeeded and the loop stands at the start of cycle
  \<open>k + 1\<close>, the log file holds the header followed by the blocks of the cycles
  \<open>1, \<dots>, k\<close>; and the file the game leaves behind begins with exactly this text,
  whether the game runs to its end or not. Each \<^verbatim>\<open>with open(...)\<close> block is one
  write that has reached the file when the block is left.
\<close>

theorem log_written_cycle_by_cycle:
  assumes "game_starts e inp s"
    and "at_cycle_start e (slider_cycles inp) (initial_prompt inp) (with_key inp s) (Suc k) cur s'"
  shows "map cycle (cycles (game_state s')) = [1..<Suc k] \<and>
         fs s' (game_log_name (now s)) =
           Some (header_text e (now s) (initial_prompt inp) @
                 concat (map (log_block (slider_cycles inp)) (cycles (game_state s')))) \<and>
         (\<exists>rest. fs (world_of (main e inp s)) (game_log_name (now s)) =
           Some (header_text e (now s) (initial_prompt inp) @
                 concat (map (log_block (slider_cycles inp)) (cycles (game_state s'))) @ rest))"
proof -
  let ?n = "slider_cycles inp" and ?p = "initial_prompt inp"
  from head_game [OF assms(2)] have m: "map cycle (cycles (game_state s')) = [1..<Suc k]"
    by simp
  from head_log [OF assms(2)] have l: "fs s' (game_log_name (now s)) =
      Some (header_text e (now s) ?p @ concat (map (log_block ?n) (cycles (game_state s'))))"
    by simp
  from head_final_prefix [OF assms(2)] obtain more where
    "cycles (game_state (world_of (start_game e ?n ?p (with_key inp s)))) =
       cycles (game_state s') @ more" by (auto simp: prefix_def)
  with start_game_log [of e ?n ?p "with_key inp s"] main_starts [OF assms(1)]
  have "\<exists>rest. fs (world_of (main e inp s)) (game_log_name (now s)) =
      Some (header_text e (now s) ?p @ concat (map (log_block ?n) (cycles (game_state s'))) @ rest)"
    by simp
  with m l show ?thesis by blast
qed

theorem log_written_cycle_by_cycle_witness:
  "game_starts stub (press_start 3 ''a cat'') w0 \<and>
   (\<exists>cur s'. at_cycle_start stub 3 ''a cat'' w0 2 cur s' \<and>
      map cycle (cycles (game_state s')) = [1] \<and>
      fs s' (game_log_name (now w0)) =
        Some (header_text stub (now w0) ''a cat'' @
              concat (map (log_block 3) (cycles (game_state s')))))"
proof -
  have a: "game_starts stub (press_start 3 ''a cat'') w0" by (simp add: starts_on_w0)
  from stub_second_head [of "''a cat''"] obtain cur s' where
    h: "at_cycle_start stub 3 ''a cat'' w0 2 cur s'" by auto
  then have h': "at_cycle_start stub (slider_cycles (press_start 3 ''a cat''))
      (initial_prompt (press_start 3 ''a cat'')) (with_key (press_start 3 ''a cat'') w0)
      (Suc 1) cur s'"
    by (simp add: numeral_2_eq_2)
  have u: "[1..<Suc 1] = [1::nat]" by simp
  from log_written_cycle_by_cycle [OF a h'] a h u show ?thesis
    by (intro conjI exI [of _ cur] exI [of _ s']) simp_all
qed

text \<open>
  Claim C8, as amended. The log of a game is named after the whole second in which
  the game starts. A game started in another second than \<open>t\<close> gets a name different
  from that of the log of second \<open>t\<close>, and leaves that log as it was.
\<close>

theorem logs_of_different_seconds_apart:
  assumes "game_starts e inp s" and "t \<noteq> now s"
  shows "log_path (game_state (world_of (main e inp s))) = Some (game_log_name (now s)) \<and>
         game_log_name (now s) \<noteq> game_log_name t \<and>
         fs (world_of (main e inp s)) (game_log_name t) = fs s (game_log_name t)"
proof -
  from assms(2) have ne: "game_log_name t \<noteq> game_log_name (now s)" by simp
  have "fs (world_of (start_game e (slider_cycles inp) (initial_prompt inp) (with_key inp s)))
          (game_log_name t) = fs (with_key inp s) (game_log_name t)"
    by (rule start_game_untouched) (use ne in simp_all)
  with ne start_game_log_path [of e "slider_cycles inp" "initial_prompt inp" "with_key inp s"]
    main_starts [OF assms(1)]
  show ?thesis by simp
qed

theorem logs_of_different_seconds_apart_witness:
  "game_starts stub (press_start 1 ''a dog'') (game_one\<lparr>now := 1700000001\<rparr>) \<and>
   (1700000000::int) \<noteq> now (game_one\<lparr>now := 1700000001\<rparr>) \<and>
   log_path (game_state (world_of (main stub (press_start 1 ''a dog'')
     (game_one\<lparr>now := 1700000001\<rparr>)))) = Some (game_log_name 1700000001) \<and>
   fs (world_of (main stub (press_start 1 ''a dog'') (game_one\<lparr>now := 1700000001\<rparr>)))
     (game_log_name 1700000000) = fs game_one (game_log_name 1700000000)"
proof -
  have g: "game_state game_one =
     \<lparr>running = False,
      cycles = [\<lparr>cycle = 1, prompt = ''a cat'', image_d = ''image of a cat'',
                 image_path = ''telephone_game/image_1700000000.png'',
                 description = ''a feline in pointed headwear''\<rparr>],
      log_path = Some ''telephone_game/game_log_1700000000.txt''\<rparr>"
    and k: "api_key game_one = None"
    by (simp_all add: game_one_def run_eval)
  have a: "game_starts stub (press_start 1 ''a dog'') (game_one\<lparr>now := 1700000001\<rparr>)"
    by (simp add: game_starts_def press_start_def with_key_def get_client_def g k stub_fields)
  have b: "(1700000000::int) \<noteq> now (game_one\<lparr>now := 1700000001\<rparr>)" by simp
  from logs_of_different_seconds_apart [OF a b] a b show ?thesis by simp
qed

text \<open>
  Claim C8 as stated fails: a game of one cycle whose services answer within the
  second, followed at once by another game, gives both games the same log file, and
  the header of the second game replaces the log of the first.
\<close>

theorem same_second_logs_collide:
  "log_path (game_state game_one) = Some ''telephone_game/game_log_1700000000.txt'' \<and>
   log_path (game_state game_two) = Some ''telephone_game/game_log_1700000000.txt'' \<and>
   fs game_one ''telephone_game/game_log_1700000000.txt'' =
     Some (header_text stub 1700000000 ''a cat'' @
           cycle_text 1 1 ''a cat'' ''telephone_game/image_1700000000.png''
             ''a feline in pointed headwear'' @
           footer_text stub 1700000000) \<and>
   fs game_two ''telephone_game/game_log_1700000000.txt'' =
     Some (header_text stub 1700000000 ''a dog'' @
           cycle_text 1 1 ''a dog'' ''telephone_game/image_1700000000.png''
             ''a feline in pointed headwear'' @
           footer_text stub 1700000000) \<and>
   fs game_two ''telephone_game/game_log_1700000000.txt'' \<noteq>
   fs game_one ''telephone_game/game_log_1700000000.txt''"
proof -
  have a: "log_path (game_state game_one) = Some ''telephone_game/game_log_1700000000.txt''"
    by (simp add: game_one_def run_eval)
  have b: "log_path (game_state game_two) = Some ''telephone_game/game_log_1700000000.txt''"
    by (simp add: game_two_def game_one_def run_eval)
  have c: "fs game_one ''telephone_game/game_log_1700000000.txt'' =
     Some (header_text stub 1700000000 ''a cat'' @
           cycle_text 1 1 ''a cat'' ''telephone_game/image_1700000000.png''
             ''a feline in pointed headwear'' @
           footer_text stub 1700000000)"
    by (simp add: game_one_def run_eval)
  have d: "fs game_two ''telephone_game/game_log_1700000000.txt'' =
     Some (header_text stub 1700000000 ''a dog'' @
           cycle_text 1 1 ''a dog'' ''telephone_game/image_1700000000.png''
             ''a feline in pointed headwear'' @
           footer_text stub 1700000000)"
    by (simp add: game_two_def game_one_def run_eval)
  have e: "header_text stub 1700000000 ''a dog'' @ x \<noteq> header_text stub 1700000000 ''a cat'' @ y"
    for x y by (simp add: header_text_def)
  from a b c d e show ?thesis by simp
qed

text \<open>
  Claim C9, as amended. Every image is saved as \<^verbatim>\<open>telephone_game/image_<t>.png\<close>,
  \<open>t\<close> being the whole second of the save. Names of different seconds differ. Within
  one game the saves are at least a second apart, so the image files of its records are
  pairwise different and each still holds its image when the game ends; and no image
  saved in a second before the game started is touched.
\<close>

theorem images_of_a_game_apart:
  assumes "game_starts e inp s"
  shows "distinct (map image_path (cycles (game_state (world_of (main e inp s))))) \<and>
         (\<forall>c\<in>set (cycles (game_state (world_of (main e inp s)))).
            fs (world_of (main e inp s)) (image_path c) = Some (image_d c) \<and>
            (\<exists>t\<ge>now s. image_path c = image_name t)) \<and>
         (\<forall>t<now s. fs (world_of (main e inp s)) (image_name t) = fs s (image_name t)) \<and>
         (\<forall>t t'. image_name t = image_name t' \<longrightarrow> t = t')"
proof -
  have "fs (world_of (start_game e (slider_cycles inp) (initial_prompt inp) (with_key inp s)))
          (image_name t) = fs s (image_name t)" if "t < now s" for t
  proof -
    from that have "\<forall>t'\<ge>now (with_key inp s). image_name t \<noteq> image_name t'" by auto
    from start_game_untouched [OF _ this] show ?thesis by simp
  qed
  with start_game_images [of e "slider_cycles inp" "initial_prompt inp" "with_key inp s"]
    main_starts [OF assms]
  show ?thesis by simp
qed

theorem images_of_a_game_apart_witness:
  "game_starts stub (press_start 3 ''a cat'') w0 \<and>
   distinct (map image_path (cycles (game_state (world_of (main stub (press_start 3 ''a cat'') w0))))) \<and>
   map image_path (cycles (game_state (world_of (main stub (press_start 3 ''a cat'') w0)))) =
     [''telephone_game/image_1700000000.png'', ''telephone_game/image_1700000001.png'',
      ''telephone_game/image_1700000002.png'']"
proof -
  have a: "game_starts stub (press_start 3 ''a cat'') w0" by (simp add: starts_on_w0)
  have b: "map image_path (cycles (game_state (world_of (main stub (press_start 3 ''a cat'') w0)))) =
     [''telephone_game/image_1700000000.png'', ''telephone_game/image_1700000001.png'',
      ''telephone_game/image_1700000002.png'']"
    by (simp add: run_eval)
  from images_of_a_game_apart [OF a] a b show ?thesis by simp
qed

text \<open>
  Claim C9 as stated fails across games: the two games above save their images under
  the same name, and the image of the first game is replaced by that of the second.
\<close>

theorem same_second_images_collide:
  "map image_path (cycles (game_state game_one)) = [''telephone_game/image_1700000000.png''] \<and>
   map image_path (cycles (game_state game_two)) = [''telephone_game/image_1700000000.png''] \<and>
   fs game_one ''telephone_game/image_1700000000.png'' = Some ''image of a cat'' \<and>
   fs game_two ''telephone_game/image_1700000000.png'' = Some ''image of a dog''"
proof -
  have a: "map image_path (cycles (game_state game_one)) = [''telephone_game/image_1700000000.png'']"
    by (simp add: game_one_def run_eval)
  have b: "map image_path (cycles (game_state game_two)) = [''telephone_game/image_1700000000.png'']"
    by (simp add: game_two_def game_one_def run_eval)
  have c: "fs game_one ''telephone_game/image_1700000000.png'' = Some ''image of a cat''"
    by (simp add: game_one_def run_eval)
  have d: "fs game_two ''telephone_game/image_1700000000.png'' = Some ''image of a dog''"
    by (simp add: game_two_def game_one_def run_eval)
  from a b c d show ?thesis by simp
qed

end
